theory Spec2Isabelle
  imports Complex_Main "HOL-Library.Multiset"
begin

section \<open>Characters and the classification functions of the C library\<close>

text \<open>
  A \<open>std::string\<close> is a sequence of bytes, modelled as \<open>string\<close> (a list of 8-bit
  \<open>char\<close>). \<open>isalnum\<close> and \<open>isupper\<close> are those of the default "C" locale, the only
  locale the program runs in (it never calls \<open>setlocale\<close>): the ASCII digits and
  letters. The program passes a plain \<open>char\<close>, so a byte from 128 on reaches them as a
  negative \<open>int\<close> where \<open>char\<close> is signed, which their contract does not cover; the
  model answers "in neither class" there, as the table lookup of the usual C libraries
  does.
\<close>

definition isupper_c :: "char \<Rightarrow> bool" where
  "isupper_c c = (65 \<le> (of_char c :: nat) \<and> (of_char c :: nat) \<le> 90)"

definition islower_c :: "char \<Rightarrow> bool" where
  "islower_c c = (97 \<le> (of_char c :: nat) \<and> (of_char c :: nat) \<le> 122)"

definition isdigit_c :: "char \<Rightarrow> bool" where
  "isdigit_c c = (48 \<le> (of_char c :: nat) \<and> (of_char c :: nat) \<le> 57)"

definition isalnum_c :: "char \<Rightarrow> bool" where
  "isalnum_c c = (isupper_c c \<or> islower_c c \<or> isdigit_c c)"

definition newline :: char where
  "newline = CHR 0x0A"

section \<open>The \<open>Comparable\<close> base: five operators derived from \<open>operator<\<close>\<close>

text \<open>
  Each operator of the CRTP base is a function of the derived class's \<open>operator<\<close>,
  passed as \<open>lt\<close>. \<open>this\<close> is the first argument, \<open>other\<close> the second.
\<close>

definition Comparable_ge :: "('a \<Rightarrow> 'a \<Rightarrow> bool) \<Rightarrow> 'a \<Rightarrow> 'a \<Rightarrow> bool" where
  "Comparable_ge lt this other = (\<not> lt this other)"

definition Comparable_le :: "('a \<Rightarrow> 'a \<Rightarrow> bool) \<Rightarrow> 'a \<Rightarrow> 'a \<Rightarrow> bool" where
  "Comparable_le lt this other = (\<not> lt other this)"

definition Comparable_gt :: "('a \<Rightarrow> 'a \<Rightarrow> bool) \<Rightarrow> 'a \<Rightarrow> 'a \<Rightarrow> bool" where
  "Comparable_gt lt this other = (\<not> Comparable_le lt this other)"

definition Comparable_eq :: "('a \<Rightarrow> 'a \<Rightarrow> bool) \<Rightarrow> 'a \<Rightarrow> 'a \<Rightarrow> bool" where
  "Comparable_eq lt this other = (\<not> lt this other \<and> \<not> lt other this)"

definition Comparable_ne :: "('a \<Rightarrow> 'a \<Rightarrow> bool) \<Rightarrow> 'a \<Rightarrow> 'a \<Rightarrow> bool" where
  "Comparable_ne lt this other = (\<not> Comparable_eq lt this other)"

section \<open>\<open>WordStats\<close>\<close>

text \<open>
  \<open>size_t\<close> is modelled as \<open>nat\<close>. Every counter of the program (occurrences, line
  numbers, the number of lines) is bounded by the length of the text plus one, which a
  \<open>std::string\<close> keeps far below \<open>2^64\<close>, so no increment or addition wraps. The one
  subtraction, in \<open>span\<close>, is written with the wrap-around it has on \<open>size_t\<close> when the
  subtrahend is the larger.
\<close>

text \<open>
  The private members lose their trailing underscore; the getters \<open>nbOccurrences()\<close>,
  \<open>totalNumberOfLines()\<close>, \<open>word()\<close> and \<open>lineNumber()\<close>, which return the
  member, are the field selectors.
\<close>

record WordStats =
  totalNumberOfLines :: nat
  nbOccurrences :: nat
  lowestOccurringLine :: nat
  highestOccurringLine :: nat

definition WordStats_init :: WordStats where
  "WordStats_init = \<lparr>totalNumberOfLines = 0, nbOccurrences = 0,
     lowestOccurringLine = 0, highestOccurringLine = 0\<rparr>"

definition addOneOccurrence :: "nat \<Rightarrow> WordStats \<Rightarrow> WordStats" where
  "addOneOccurrence lineNumber s =
     (if nbOccurrences s + 1 = 1
      then s\<lparr>nbOccurrences := nbOccurrences s + 1,
             lowestOccurringLine := lineNumber,
             highestOccurringLine := lineNumber\<rparr>
      else s\<lparr>nbOccurrences := nbOccurrences s + 1,
             lowestOccurringLine := min (lowestOccurringLine s) lineNumber,
             highestOccurringLine := max (highestOccurringLine s) lineNumber\<rparr>)"

definition size_t_minus :: "nat \<Rightarrow> nat \<Rightarrow> nat" where
  "size_t_minus a b = (if b \<le> a then a - b else (2 ^ 64 + a - b) mod 2 ^ 64)"

definition span :: "WordStats \<Rightarrow> nat" where
  "span s =
     (if nbOccurrences s = 0 then 0
      else size_t_minus (highestOccurringLine s) (lowestOccurringLine s) + 1)"

text \<open>
  \<open>proportion\<close> divides in \<open>double\<close>. It is modelled as the real quotient: IEEE division
  is correctly rounded, so the \<open>double\<close> is the real quotient whenever that quotient is
  a \<open>double\<close> (as \<open>3/4\<close> and \<open>1/4\<close> are), and its nearest \<open>double\<close> otherwise.
\<close>

definition proportion :: "WordStats \<Rightarrow> real" where
  "proportion s =
     (if totalNumberOfLines s = 0 then 0
      else real (span s) / real (totalNumberOfLines s))"

definition setTotalNumberOfLines :: "nat \<Rightarrow> WordStats \<Rightarrow> WordStats" where
  "setTotalNumberOfLines n s = s\<lparr>totalNumberOfLines := n\<rparr>"

definition WordStats_less :: "WordStats \<Rightarrow> WordStats \<Rightarrow> bool" where
  "WordStats_less wordStats1 wordStats2 = (nbOccurrences wordStats1 < nbOccurrences wordStats2)"

section \<open>\<open>WordData\<close> and the tokenizer\<close>

record WordData =
  word :: string
  lineNumber :: nat

definition isDelimiter :: "char \<Rightarrow> bool" where
  "isDelimiter c = (let isAllowedInName = (isalnum_c c \<or> c = CHR ''_'') in \<not> isAllowedInName)"

text \<open>
  Iterators into \<open>code\<close> are positions \<open>0 .. length code\<close>, \<open>end(code)\<close> being
  \<open>length code\<close>. \<open>std::find_if\<close> and \<open>std::find_if_not\<close> return the first position
  from \<open>from\<close> on whose character satisfies (does not satisfy) the predicate, or the end;
  \<open>std::count\<close> counts the characters equal to the value in \<open>[from, to)\<close>; \<open>chars_in\<close> is the
  \<open>std::string(first, last)\<close> built from two positions.
\<close>

definition find_if :: "string \<Rightarrow> nat \<Rightarrow> (char \<Rightarrow> bool) \<Rightarrow> nat" where
  "find_if code from p = from + length (takeWhile (\<lambda>c. \<not> p c) (drop from code))"

definition find_if_not :: "string \<Rightarrow> nat \<Rightarrow> (char \<Rightarrow> bool) \<Rightarrow> nat" where
  "find_if_not code from p = from + length (takeWhile p (drop from code))"

definition chars_in :: "string \<Rightarrow> nat \<Rightarrow> nat \<Rightarrow> string" where
  "chars_in code from to = take (to - from) (drop from code)"

definition std_count :: "string \<Rightarrow> nat \<Rightarrow> nat \<Rightarrow> char \<Rightarrow> nat" where
  "std_count code from to v = length (filter (\<lambda>c. c = v) (chars_in code from to))"

text \<open>
  The \<open>while\<close> loop of \<open>getWordDataFromCode\<close>, its state being the four locals
  \<open>endWord\<close>, \<open>beginWord\<close>, \<open>line\<close> and \<open>words\<close>. No position ever lies beyond
  the end, so \<open>beginWord != end(code)\<close> is \<open>beginWord < length code\<close>.
\<close>

function getWordDataFromCode_loop ::
  "string \<Rightarrow> (char \<Rightarrow> bool) \<Rightarrow> nat \<Rightarrow> nat \<Rightarrow> nat \<Rightarrow> WordData list \<Rightarrow> WordData list" where
  "getWordDataFromCode_loop code isEndOfWord endWord beginWord line words =
     (if beginWord < length code
      then getWordDataFromCode_loop code isEndOfWord
             (find_if code (Suc beginWord) isEndOfWord)
             (find_if_not code (find_if code (Suc beginWord) isEndOfWord) isDelimiter)
             (line + std_count code endWord beginWord newline)
             (words @ [\<lparr>word = chars_in code beginWord (find_if code (Suc beginWord) isEndOfWord),
                        lineNumber = line + std_count code endWord beginWord newline\<rparr>])
      else words)"
  by pat_completeness auto
termination
  by (relation "measure (\<lambda>(code, isEndOfWord, endWord, beginWord, line, words). length code - beginWord)")
     (auto simp: find_if_def find_if_not_def)

definition getWordDataFromCode :: "string \<Rightarrow> (char \<Rightarrow> bool) \<Rightarrow> WordData list" where
  "getWordDataFromCode code isEndOfWord =
     getWordDataFromCode_loop code isEndOfWord 0 (find_if_not code 0 isDelimiter) 0 []"

datatype HowToDelimitWords = EntireWords | WordsInCamelCase

fun getWordDataFromCode_mode :: "HowToDelimitWords \<Rightarrow> string \<Rightarrow> WordData list" where
  "getWordDataFromCode_mode EntireWords code = getWordDataFromCode code isDelimiter"
| "getWordDataFromCode_mode WordsInCamelCase code =
     getWordDataFromCode code (\<lambda>c. isDelimiter c \<or> isupper_c c)"

section \<open>The ordered map and \<open>wordStats\<close>\<close>

text \<open>
  \<open>operator<\<close> of \<open>std::string\<close>: lexicographic, characters compared as unsigned
  bytes, a proper prefix before the longer string.
\<close>

fun string_less :: "string \<Rightarrow> string \<Rightarrow> bool" where
  "string_less [] [] = False"
| "string_less [] (d # t) = True"
| "string_less (c # s) [] = False"
| "string_less (c # s) (d # t) =
     (if (of_char c :: nat) < of_char d then True
      else if (of_char d :: nat) < of_char c then False
      else string_less s t)"

text \<open>
  A \<open>std::map<std::string, WordStats>\<close> is the list of its entries in iteration
  order, ascending by key. \<open>map_subscript_update key f m\<close> is the statement pair
  \<open>auto& v = m[key]; v = f(v)\<close>: \<open>operator[]\<close> finds the entry of \<open>key\<close>, or
  inserts one holding a default-constructed \<open>WordStats\<close> at its place in the order,
  and the reference it returns is then updated.
\<close>

type_synonym stats_map = "(string \<times> WordStats) list"

fun map_subscript_update :: "string \<Rightarrow> (WordStats \<Rightarrow> WordStats) \<Rightarrow> stats_map \<Rightarrow> stats_map" where
  "map_subscript_update key f [] = [(key, f WordStats_init)]"
| "map_subscript_update key f ((k, v) # m) =
     (if string_less key k then (key, f WordStats_init) # (k, v) # m
      else if string_less k key then (k, v) # map_subscript_update key f m
      else (k, f v) # m)"

definition wordStats :: "WordData list \<Rightarrow> nat \<Rightarrow> stats_map" where
  "wordStats wordData numberOfLines =
     fold (\<lambda>oneWordData.
             map_subscript_update (word oneWordData)
               (\<lambda>oneWordStats. addOneOccurrence (lineNumber oneWordData)
                                 (setTotalNumberOfLines numberOfLines oneWordStats)))
          wordData []"

definition numberOfLines :: "string \<Rightarrow> nat" where
  "numberOfLines code = std_count code 0 (length code) newline + 1"

section \<open>\<open>getWordCount\<close> and \<open>std::sort\<close>\<close>

text \<open>
  \<open>std::sort\<close> is specified by what it leaves in the range: a permutation of the
  elements, in which no element is \<open>cmp\<close>-before an element that precedes it. The
  order of elements equivalent under \<open>cmp\<close> is not specified (it is for
  \<open>std::stable_sort\<close>), and differs between implementations and between lengths of
  the range. So \<open>std_sort cmp xs ys\<close> says that \<open>ys\<close> is a permitted result of
  sorting \<open>xs\<close>, and \<open>getWordCount code ranked\<close> that \<open>ranked\<close> is a permitted
  return value of \<open>getWordCount(code)\<close>.
\<close>

fun is_permutation :: "'a list \<Rightarrow> 'a list \<Rightarrow> bool" where
  "is_permutation [] ys = (ys = [])"
| "is_permutation (x # xs) ys = (x \<in> set ys \<and> is_permutation xs (remove1 x ys))"

definition std_sort :: "('a \<Rightarrow> 'a \<Rightarrow> bool) \<Rightarrow> 'a list \<Rightarrow> 'a list \<Rightarrow> bool" where
  "std_sort cmp xs ys = (is_permutation xs ys \<and> sorted_wrt (\<lambda>a b. \<not> cmp b a) ys)"

type_synonym WordCount = "(string \<times> WordStats) list"

definition getWordCount_comp :: "string \<times> WordStats \<Rightarrow> string \<times> WordStats \<Rightarrow> bool" where
  "getWordCount_comp p1 p2 = Comparable_gt WordStats_less (snd p1) (snd p2)"

definition getWordCount :: "string \<Rightarrow> WordCount \<Rightarrow> bool" where
  "getWordCount code sortedWordCount =
     std_sort getWordCount_comp
       (wordStats (getWordDataFromCode_mode WordsInCamelCase code) (numberOfLines code))
       sortedWordCount"

section \<open>Sequences of calls on one \<open>WordStats\<close>\<close>

text \<open>
  The two mutating members of \<open>WordStats\<close>, and the object that a sequence of calls
  of them leaves, starting from a default-constructed one.
\<close>

datatype WordStats_call = SetTotalNumberOfLines nat | AddOneOccurrence nat

fun WordStats_do :: "WordStats_call \<Rightarrow> WordStats \<Rightarrow> WordStats" where
  "WordStats_do (SetTotalNumberOfLines n) s = setTotalNumberOfLines n s"
| "WordStats_do (AddOneOccurrence line) s = addOneOccurrence line s"

definition WordStats_after :: "WordStats_call list \<Rightarrow> WordStats" where
  "WordStats_after calls = fold WordStats_do calls WordStats_init"

section \<open>The invariant of the statistics held by the map\<close>

text \<open>
  What the proofs below maintain of every \<open>WordStats\<close> in the map built by
  \<open>wordStats\<close> from occurrences whose line numbers are below \<open>bound\<close>.
\<close>

definition stats_ok :: "nat \<Rightarrow> nat \<Rightarrow> WordStats \<Rightarrow> bool" where
  "stats_ok n bound s =
     (totalNumberOfLines s = n \<and> 1 \<le> nbOccurrences s
      \<and> lowestOccurringLine s \<le> highestOccurringLine s \<and> highestOccurringLine s < bound
      \<and> (nbOccurrences s = 1 \<longrightarrow> lowestOccurringLine s = highestOccurringLine s))"

section \<open>Evaluation and basic facts\<close>

lemmas char_class_defs =
  isDelimiter_def isalnum_c_def isupper_c_def islower_c_def isdigit_c_def newline_def

lemmas tokenizer_defs =
  getWordDataFromCode_def find_if_def find_if_not_def chars_in_def std_count_def

lemmas stats_defs =
  wordStats_def numberOfLines_def addOneOccurrence_def setTotalNumberOfLines_def
  WordStats_init_def span_def size_t_minus_def proportion_def

lemmas compare_defs =
  Comparable_ge_def Comparable_le_def Comparable_gt_def Comparable_eq_def Comparable_ne_def
  WordStats_less_def getWordCount_comp_def

lemma chars_in_all: "chars_in code 0 (length code) = code"
  by (simp add: chars_in_def)

lemma std_count_all: "std_count code 0 (length code) v = count_list code v"
proof -
  have "(\<lambda>c. c = v) = (=) v"
    by auto
  then show ?thesis
    by (simp add: std_count_def chars_in_all count_list_eq_length_filter)
qed

lemma numberOfLines_count_list: "numberOfLines code = count_list code newline + 1"
  by (simp add: numberOfLines_def std_count_all)

section \<open>The tokenizer's positions and line numbers\<close>

lemma find_if_ge: "from \<le> find_if code from p"
  by (simp add: find_if_def)

lemma find_if_le: "from \<le> length code \<Longrightarrow> find_if code from p \<le> length code"
proof -
  assume "from \<le> length code"
  moreover have "length (takeWhile (\<lambda>c. \<not> p c) (drop from code)) \<le> length (drop from code)"
    by (rule length_takeWhile_le)
  ultimately show ?thesis
    by (simp add: find_if_def)
qed

lemma find_if_not_ge: "from \<le> find_if_not code from p"
  by (simp add: find_if_not_def)

lemma find_if_not_le: "from \<le> length code \<Longrightarrow> find_if_not code from p \<le> length code"
proof -
  assume "from \<le> length code"
  moreover have "length (takeWhile p (drop from code)) \<le> length (drop from code)"
    by (rule length_takeWhile_le)
  ultimately show ?thesis
    by (simp add: find_if_not_def)
qed

lemma take_chars_in: "from \<le> to \<Longrightarrow> take to code = take from code @ chars_in code from to"
proof -
  assume "from \<le> to"
  then have "take to code = take (from + (to - from)) code"
    by simp
  also have "\<dots> = take from code @ take (to - from) (drop from code)"
    by (rule take_add)
  finally show ?thesis
    by (simp add: chars_in_def)
qed

lemma count_list_append: "count_list (xs @ ys) v = count_list xs v + count_list ys v"
  by (induction xs) auto

lemma std_count_count_list: "std_count code from to v = count_list (chars_in code from to) v"
proof -
  have "(\<lambda>c. c = v) = (=) v"
    by auto
  then show ?thesis
    by (simp add: std_count_def count_list_eq_length_filter)
qed

lemma count_list_take_le: "count_list (take n xs) v \<le> count_list xs v"
proof -
  have "count_list xs v = count_list (take n xs) v + count_list (drop n xs) v"
    by (metis append_take_drop_id count_list_append)
  then show ?thesis
    by simp
qed

lemma count_list_take_mono: "m \<le> n \<Longrightarrow> count_list (take m xs) v \<le> count_list (take n xs) v"
proof -
  assume "m \<le> n"
  then have "take m xs = take m (take n xs)"
    by (simp add: min_def)
  then show ?thesis
    by (metis count_list_take_le)
qed

lemma std_count_step:
  "from \<le> to \<Longrightarrow> count_list (take from code) v + std_count code from to v = count_list (take to code) v"
  by (simp add: std_count_count_list take_chars_in [of "from" to code] count_list_append)

lemma loop_lines:
  "endWord \<le> beginWord \<Longrightarrow> line \<le> count_list (take endWord code) newline
   \<Longrightarrow> sorted (map lineNumber words) \<Longrightarrow> \<forall>w\<in>set words. lineNumber w \<le> line
   \<Longrightarrow> sorted (map lineNumber (getWordDataFromCode_loop code isEndOfWord endWord beginWord line words))
       \<and> (\<forall>w\<in>set (getWordDataFromCode_loop code isEndOfWord endWord beginWord line words).
            lineNumber w \<le> count_list code newline)"
proof (induction code isEndOfWord endWord beginWord line words
       rule: getWordDataFromCode_loop.induct)
  case (1 code isEndOfWord endWord beginWord line words)
  let ?e = "find_if code (Suc beginWord) isEndOfWord"
  let ?b = "find_if_not code ?e isDelimiter"
  let ?l = "line + std_count code endWord beginWord newline"
  let ?w = "\<lparr>word = chars_in code beginWord ?e, lineNumber = ?l\<rparr>"
  have line_total: "line \<le> count_list code newline"
    using "1.prems"(2) count_list_take_le [of endWord code newline] by linarith
  show ?case
  proof (cases "beginWord < length code")
    case False
    then show ?thesis
      using "1.prems" line_total by (simp add: getWordDataFromCode_loop.simps [of code _ _ beginWord]) fastforce
  next
    case True
    have eb: "?e \<le> ?b"
      by (rule find_if_not_ge)
    have "?l \<le> count_list (take beginWord code) newline"
      using "1.prems"(1,2) std_count_step [of endWord beginWord code newline] by linarith
    moreover have "beginWord \<le> ?e"
      using find_if_ge [of "Suc beginWord" code isEndOfWord] by linarith
    ultimately have l_le: "?l \<le> count_list (take ?e code) newline"
      using count_list_take_mono [of beginWord ?e code newline] by linarith
    have srt: "sorted (map lineNumber (words @ [?w]))"
      using "1.prems"(3,4) by (fastforce simp add: sorted_append)
    have bnd: "\<forall>w\<in>set (words @ [?w]). lineNumber w \<le> ?l"
      using "1.prems"(4) by fastforce
    have "sorted (map lineNumber (getWordDataFromCode_loop code isEndOfWord ?e ?b ?l (words @ [?w])))
       \<and> (\<forall>w\<in>set (getWordDataFromCode_loop code isEndOfWord ?e ?b ?l (words @ [?w])).
            lineNumber w \<le> count_list code newline)"
      using "1.IH" [OF True eb l_le srt bnd] .
    then show ?thesis
      using True by (simp add: getWordDataFromCode_loop.simps [of code _ _ beginWord])
  qed
qed

lemma getWordDataFromCode_lines:
  "sorted (map lineNumber (getWordDataFromCode code isEndOfWord))
   \<and> (\<forall>w\<in>set (getWordDataFromCode code isEndOfWord). lineNumber w < numberOfLines code)"
proof -
  have "sorted (map lineNumber (getWordDataFromCode code isEndOfWord))
   \<and> (\<forall>w\<in>set (getWordDataFromCode code isEndOfWord). lineNumber w \<le> count_list code newline)"
    unfolding getWordDataFromCode_def by (rule loop_lines) simp_all
  then show ?thesis
    by (simp add: numberOfLines_count_list less_Suc_eq_le)
qed

section \<open>Permutations and the sum of the counts\<close>

lemma is_permutation_mset: "is_permutation xs ys = (mset xs = mset ys)"
proof (induction xs arbitrary: ys)
  case Nil
  then show ?case by auto
next
  case (Cons x xs)
  show ?case
  proof (cases "x \<in> set ys")
    case True
    then have "mset ys = add_mset x (mset (remove1 x ys))"
      by simp
    then have "(mset (x # xs) = mset ys) = (add_mset x (mset xs) = add_mset x (mset (remove1 x ys)))"
      by (simp only: mset.simps)
    then have "(mset (x # xs) = mset ys) = (mset xs = mset (remove1 x ys))"
      by (simp only: add_mset_add_mset_same_iff)
    then show ?thesis
      using Cons.IH [of "remove1 x ys"] True by simp
  next
    case False
    then have "mset (x # xs) \<noteq> mset ys"
      by (metis list.set_intros(1) mset_eq_setD)
    then show ?thesis
      using False by simp
  qed
qed

lemma is_permutation_sum_list:
  fixes f :: "'a \<Rightarrow> nat"
  shows "is_permutation xs ys \<Longrightarrow> sum_list (map f ys) = sum_list (map f xs)"
proof -
  assume "is_permutation xs ys"
  then have "mset (map f ys) = mset (map f xs)"
    by (simp add: is_permutation_mset)
  then have "sum_mset (mset (map f ys)) = sum_mset (mset (map f xs))"
    by simp
  then show ?thesis
    by (simp only: sum_mset_sum_list)
qed

lemma is_permutation_set: "is_permutation xs ys \<Longrightarrow> set ys = set xs"
  by (metis is_permutation_mset mset_eq_setD)

lemma sum_map_subscript_update:
  "(\<And>s. nbOccurrences (f s) = nbOccurrences s + 1)
   \<Longrightarrow> sum_list (map (\<lambda>e. nbOccurrences (snd e)) (map_subscript_update key f m))
       = sum_list (map (\<lambda>e. nbOccurrences (snd e)) m) + 1"
  by (induction key f m rule: map_subscript_update.induct) (simp_all add: WordStats_init_def)

lemma nbOccurrences_step:
  "nbOccurrences (addOneOccurrence l (setTotalNumberOfLines n s)) = nbOccurrences s + 1"
  by (simp add: addOneOccurrence_def setTotalNumberOfLines_def)

lemma sum_fold_wordStats:
  "sum_list (map (\<lambda>e. nbOccurrences (snd e))
      (fold (\<lambda>oneWordData.
             map_subscript_update (word oneWordData)
               (\<lambda>oneWordStats. addOneOccurrence (lineNumber oneWordData)
                                 (setTotalNumberOfLines n oneWordStats)))
          wordData m))
   = sum_list (map (\<lambda>e. nbOccurrences (snd e)) m) + length wordData"
  by (induction wordData arbitrary: m) (simp_all add: sum_map_subscript_update nbOccurrences_step)

lemma sum_wordStats:
  "sum_list (map (\<lambda>e. nbOccurrences (snd e)) (wordStats wordData n)) = length wordData"
  by (simp add: wordStats_def sum_fold_wordStats)

section \<open>One word or several\<close>

lemma loop_length_ge:
  "length words \<le> length (getWordDataFromCode_loop code isEndOfWord endWord beginWord line words)"
proof (induction code isEndOfWord endWord beginWord line words
       rule: getWordDataFromCode_loop.induct)
  case (1 code isEndOfWord endWord beginWord line words)
  show ?case
  proof (cases "beginWord < length code")
    case True
    then show ?thesis
      using "1.IH" [OF True] by (simp add: getWordDataFromCode_loop.simps [of code _ _ beginWord])
  next
    case False
    then show ?thesis
      by (simp add: getWordDataFromCode_loop.simps [of code _ _ beginWord])
  qed
qed

lemma find_if_not_here:
  "from < length code \<Longrightarrow> \<not> p (code ! from) \<Longrightarrow> find_if_not code from p = from"
proof -
  assume a: "from < length code" "\<not> p (code ! from)"
  then have "drop from code = code ! from # drop (Suc from) code"
    by (simp add: Cons_nth_drop_Suc)
  then show ?thesis
    using a by (simp add: find_if_not_def)
qed

lemma find_if_not_end: "find_if_not code (length code) p = length code"
  by (simp add: find_if_not_def)

lemma find_if_none:
  "\<forall>x\<in>set (drop from code). \<not> p x \<Longrightarrow> from \<le> length code \<Longrightarrow> find_if code from p = length code"
proof -
  assume a: "\<forall>x\<in>set (drop from code). \<not> p x" "from \<le> length code"
  then have "takeWhile (\<lambda>c. \<not> p c) (drop from code) = drop from code"
    by (simp add: takeWhile_eq_all_conv)
  then have "find_if code from p = from + length (drop from code)"
    by (simp only: find_if_def)
  then show ?thesis
    using a(2) by simp
qed

lemma find_if_some:
  "\<exists>x\<in>set (drop from code). p x
   \<Longrightarrow> find_if code from p < length code \<and> p (code ! find_if code from p)"
proof -
  assume a: "\<exists>x\<in>set (drop from code). p x"
  let ?t = "takeWhile (\<lambda>c. \<not> p c) (drop from code)"
  have "?t \<noteq> drop from code"
    using a by (simp add: takeWhile_eq_all_conv)
  moreover have "length ?t \<le> length (drop from code)"
    by (rule length_takeWhile_le)
  ultimately have less: "length ?t < length (drop from code)"
    by (metis le_neq_implies_less takeWhile_eq_take take_all_iff order_refl)
  then have "\<not> \<not> p (drop from code ! length ?t)"
    by (rule nth_length_takeWhile)
  moreover have "from + length ?t < length code"
    using less by simp
  ultimately show ?thesis
    by (simp add: find_if_def)
qed

lemma tokenize_one_word:
  assumes "code \<noteq> []" and "\<not> isDelimiter (hd code)" and "\<forall>x\<in>set (tl code). \<not> isEndOfWord x"
  shows "getWordDataFromCode code isEndOfWord = [\<lparr>word = code, lineNumber = 0\<rparr>]"
proof -
  have pos: "0 < length code"
    using assms(1) by simp
  have "\<not> isDelimiter (code ! 0)"
    using assms(1,2) by (simp add: hd_conv_nth)
  then have b: "find_if_not code 0 isDelimiter = 0"
    using pos by (rule find_if_not_here [rotated])
  have "\<forall>x\<in>set (drop (Suc 0) code). \<not> isEndOfWord x"
    using assms(3) by (simp add: drop_Suc)
  then have e: "find_if code (Suc 0) isEndOfWord = length code"
    by (rule find_if_none) (use pos in \<open>simp add: Suc_le_eq\<close>)
  have c: "std_count code 0 0 newline = 0"
    by (simp add: std_count_def chars_in_def)
  show ?thesis
    unfolding getWordDataFromCode_def b
    using pos e c by (simp add: find_if_not_end chars_in_all)
qed

lemma tokenize_two_words:
  assumes "code \<noteq> []" and "\<forall>c\<in>set code. \<not> isDelimiter c" and "\<exists>x\<in>set (tl code). isEndOfWord x"
  shows "2 \<le> length (getWordDataFromCode code isEndOfWord)"
proof -
  let ?e = "find_if code (Suc 0) isEndOfWord"
  have pos: "0 < length code"
    using assms(1) by simp
  have "\<not> isDelimiter (code ! 0)"
    using assms(2) pos by simp
  then have b: "find_if_not code 0 isDelimiter = 0"
    using pos by (rule find_if_not_here [rotated])
  have "\<exists>x\<in>set (drop (Suc 0) code). isEndOfWord x"
    using assms(3) by (simp add: drop_Suc)
  then have e: "?e < length code"
    using find_if_some [of "Suc 0" code isEndOfWord] by simp
  then have "\<not> isDelimiter (code ! ?e)"
    using assms(2) by simp
  then have b2: "find_if_not code ?e isDelimiter = ?e"
    using e by (rule find_if_not_here [rotated])
  have "2 \<le> length (getWordDataFromCode_loop code isEndOfWord e2 b3 l3 [w1, w2])"
    for w1 w2 e2 b3 l3
    using loop_length_ge [of "[w1, w2]" code isEndOfWord e2 b3 l3] by simp
  then show ?thesis
    unfolding getWordDataFromCode_def b
    using pos e b2
    by (simp add: getWordDataFromCode_loop.simps [of code _ _ 0]
        getWordDataFromCode_loop.simps [of code _ _ ?e] del: getWordDataFromCode_loop.simps)
qed

section \<open>The statistics in the map\<close>

lemma stats_ok_first:
  "l < bound \<Longrightarrow> stats_ok n bound (addOneOccurrence l (setTotalNumberOfLines n WordStats_init))"
  by (simp add: stats_ok_def addOneOccurrence_def setTotalNumberOfLines_def WordStats_init_def)

lemma stats_ok_next:
  "l < bound \<Longrightarrow> stats_ok n bound s
   \<Longrightarrow> stats_ok n bound (addOneOccurrence l (setTotalNumberOfLines n s))"
  by (simp add: stats_ok_def addOneOccurrence_def setTotalNumberOfLines_def)

lemma stats_ok_map_subscript_update:
  "\<forall>e\<in>set m. P (snd e) \<Longrightarrow> P (f WordStats_init) \<Longrightarrow> (\<And>s. P s \<Longrightarrow> P (f s))
   \<Longrightarrow> \<forall>e\<in>set (map_subscript_update key f m). P (snd e)"
  by (induction key f m rule: map_subscript_update.induct) auto

lemma stats_ok_fold:
  "\<forall>d\<in>set wordData. lineNumber d < bound \<Longrightarrow> \<forall>e\<in>set m. stats_ok n bound (snd e)
   \<Longrightarrow> \<forall>e\<in>set (fold (\<lambda>oneWordData.
             map_subscript_update (word oneWordData)
               (\<lambda>oneWordStats. addOneOccurrence (lineNumber oneWordData)
                                 (setTotalNumberOfLines n oneWordStats)))
          wordData m). stats_ok n bound (snd e)"
proof (induction wordData arbitrary: m)
  case Nil
  then show ?case by simp
next
  case (Cons d wordData)
  let ?f = "\<lambda>oneWordStats. addOneOccurrence (lineNumber d) (setTotalNumberOfLines n oneWordStats)"
  have l: "lineNumber d < bound"
    using Cons.prems(1) by simp
  have "\<forall>e\<in>set (map_subscript_update (word d) ?f m). stats_ok n bound (snd e)"
    using Cons.prems(2) stats_ok_first [OF l] stats_ok_next [OF l]
    by (rule stats_ok_map_subscript_update)
  moreover have "\<forall>d\<in>set wordData. lineNumber d < bound"
    using Cons.prems(1) by simp
  ultimately show ?case
    using Cons.IH by simp
qed

lemma stats_ok_wordStats:
  "\<forall>d\<in>set wordData. lineNumber d < bound
   \<Longrightarrow> \<forall>e\<in>set (wordStats wordData n). stats_ok n bound (snd e)"
  unfolding wordStats_def by (rule stats_ok_fold) simp_all

lemma stats_ok_span:
  "stats_ok n bound s \<Longrightarrow> 1 \<le> span s \<and> span s \<le> bound \<and> (nbOccurrences s = 1 \<longrightarrow> span s = 1)"
  by (auto simp add: stats_ok_def span_def size_t_minus_def)

lemma WordStats_after_snoc:
  "WordStats_after (calls @ [c]) = WordStats_do c (WordStats_after calls)"
  by (simp add: WordStats_after_def)

lemma WordStats_after_invariant:
  "(0 < nbOccurrences (WordStats_after calls)
      \<longrightarrow> lowestOccurringLine (WordStats_after calls) \<le> highestOccurringLine (WordStats_after calls))
   \<and> (nbOccurrences (WordStats_after calls) = 0
      \<longrightarrow> lowestOccurringLine (WordStats_after calls) = 0
          \<and> highestOccurringLine (WordStats_after calls) = 0)"
proof (induction calls rule: rev_induct)
  case Nil
  then show ?case
    by (simp add: WordStats_after_def WordStats_init_def)
next
  case (snoc c calls)
  then show ?case
    by (cases c)
       (auto simp add: WordStats_after_snoc addOneOccurrence_def setTotalNumberOfLines_def)
qed

section \<open>The order of the keys of the map\<close>

lemma string_less_irrefl: "\<not> string_less s s"
  by (induction s) simp_all

lemma string_less_trans: "string_less a b \<Longrightarrow> string_less b c \<Longrightarrow> string_less a c"
proof (induction a b arbitrary: c rule: string_less.induct)
  case 1
  then show ?case by simp
next
  case (2 d t)
  then show ?case by (cases c) simp_all
next
  case (3 x s)
  then show ?case by simp
next
  case (4 x s d t)
  then show ?case
    by (cases c) (auto split: if_splits)
qed

lemma string_less_total: "\<not> string_less a b \<Longrightarrow> \<not> string_less b a \<Longrightarrow> a = b"
proof (induction a b rule: string_less.induct)
  case (4 x s d t)
  then have "(of_char x :: nat) = of_char d"
    by (auto split: if_splits)
  then have "x = d"
    by simp
  then show ?case
    using 4 by (auto split: if_splits)
qed simp_all

lemma keys_map_subscript_update:
  "fst ` set (map_subscript_update key f m) = insert key (fst ` set m)"
  by (induction key f m rule: map_subscript_update.induct)
     (auto dest: string_less_total)

lemma sorted_map_subscript_update:
  "sorted_wrt string_less (map fst m)
   \<Longrightarrow> sorted_wrt string_less (map fst (map_subscript_update key f m))"
proof (induction key f m rule: map_subscript_update.induct)
  case (1 key f)
  then show ?case by simp
next
  case (2 key f k v m)
  show ?case
  proof (cases "string_less key k")
    case True
    then show ?thesis
      using "2.prems" by (auto intro: string_less_trans)
  next
    case False
    note nless = this
    show ?thesis
    proof (cases "string_less k key")
      case True
      have "sorted_wrt string_less (map fst (map_subscript_update key f m))"
        using "2.IH" [OF nless True] "2.prems" by simp
      moreover have "\<forall>x\<in>fst ` set (map_subscript_update key f m). string_less k x"
        using "2.prems" True by (auto simp add: keys_map_subscript_update)
      ultimately show ?thesis
        using nless True by simp
    next
      case False
      then show ?thesis
        using nless "2.prems" by simp
    qed
  qed
qed

lemma sorted_fold_wordStats:
  "sorted_wrt string_less (map fst m)
   \<Longrightarrow> sorted_wrt string_less (map fst
        (fold (\<lambda>oneWordData.
             map_subscript_update (word oneWordData)
               (\<lambda>oneWordStats. addOneOccurrence (lineNumber oneWordData)
                                 (setTotalNumberOfLines n oneWordStats)))
          wordData m))"
  by (induction wordData arbitrary: m) (simp_all add: sorted_map_subscript_update)

lemma sorted_wordStats: "sorted_wrt string_less (map fst (wordStats wordData n))"
  by (simp add: wordStats_def sorted_fold_wordStats)

lemma sorted_wrt_string_less_distinct: "sorted_wrt string_less ks \<Longrightarrow> distinct ks"
  by (induction ks) (auto simp add: string_less_irrefl)

lemma keys_fold_wordStats:
  "fst ` set (fold (\<lambda>oneWordData.
             map_subscript_update (word oneWordData)
               (\<lambda>oneWordStats. addOneOccurrence (lineNumber oneWordData)
                                 (setTotalNumberOfLines n oneWordStats)))
          wordData m) = word ` set wordData \<union> fst ` set m"
  by (induction wordData arbitrary: m) (auto simp add: keys_map_subscript_update)

section \<open>Results of \<open>std::sort\<close>\<close>

lemma is_permutation_two:
  "is_permutation [a, b] ys = (ys = [a, b] \<or> ys = [b, a])"
proof
  assume p: "is_permutation [a, b] ys"
  then have m: "mset ys = {#a, b#}"
    by (simp add: is_permutation_mset)
  then have "size (mset ys) = 2"
    by simp
  then have "length ys = 2"
    by simp
  then obtain y1 y2 where ys: "ys = [y1, y2]"
    by (metis (no_types, opaque_lifting) One_nat_def Suc_1 length_0_conv length_Suc_conv)
  then have "{#y1, y2#} = {#a, b#}"
    using m by simp
  then have "(y1 = a \<and> y2 = b) \<or> (y1 = b \<and> y2 = a)"
    by (auto simp add: add_eq_conv_ex)
  then show "ys = [a, b] \<or> ys = [b, a]"
    using ys by auto
next
  assume "ys = [a, b] \<or> ys = [b, a]"
  then show "is_permutation [a, b] ys"
    by auto
qed

lemma std_sort_two:
  "cmp a b \<Longrightarrow> \<not> cmp b a \<Longrightarrow> std_sort cmp [a, b] ys = (ys = [a, b])"
  unfolding std_sort_def is_permutation_two by auto

lemma std_sort_result:
  "std_sort getWordCount_comp m (rev (sort_key (\<lambda>e. nbOccurrences (snd e)) m))"
proof -
  let ?key = "\<lambda>e :: string \<times> WordStats. nbOccurrences (snd e)"
  have "mset m = mset (rev (sort_key ?key m))"
    by simp
  then have perm: "is_permutation m (rev (sort_key ?key m))"
    by (simp only: is_permutation_mset)
  have "sorted (map ?key (sort_key ?key m))"
    by (rule sorted_sort_key)
  then have "sorted_wrt (\<lambda>a b. ?key a \<le> ?key b) (sort_key ?key m)"
    by (simp add: sorted_map)
  moreover have "(\<lambda>a b. \<not> getWordCount_comp a b) = (\<lambda>a b. ?key a \<le> ?key b)"
    by (auto simp add: compare_defs fun_eq_iff)
  ultimately have "sorted_wrt (\<lambda>a b. \<not> getWordCount_comp b a) (rev (sort_key ?key m))"
    by (simp add: sorted_wrt_rev)
  then show ?thesis
    using perm by (simp add: std_sort_def)
qed

lemma getWordCount_returns: "\<exists>ranked. getWordCount code ranked"
  unfolding getWordCount_def using std_sort_result by blast

section \<open>The claims\<close>

text \<open>
  C1, as amended. For every text, every ranking \<open>getWordCount\<close> may return is sorted
  by \<open>nbOccurrences\<close> descending and is a permutation of the entries of the map, one
  entry for each distinct word. The order among entries with equal \<open>nbOccurrences\<close> is
  left to \<open>std::sort\<close>.
\<close>

theorem C1_ranked_by_count:
  assumes "getWordCount code ranked"
  shows "sorted_wrt (\<lambda>p q. nbOccurrences (snd p) \<ge> nbOccurrences (snd q)) ranked
       \<and> mset ranked
         = mset (wordStats (getWordDataFromCode_mode WordsInCamelCase code) (numberOfLines code))
       \<and> distinct (map fst ranked)"
proof -
  let ?m = "wordStats (getWordDataFromCode_mode WordsInCamelCase code) (numberOfLines code)"
  have perm: "mset ranked = mset ?m"
    using assms by (simp add: getWordCount_def std_sort_def is_permutation_mset)
  have "(\<lambda>a b. \<not> getWordCount_comp b a)
      = (\<lambda>p q. nbOccurrences (snd p) \<ge> nbOccurrences (snd q))"
    by (auto simp add: compare_defs fun_eq_iff)
  then have srt: "sorted_wrt (\<lambda>p q. nbOccurrences (snd p) \<ge> nbOccurrences (snd q)) ranked"
    using assms by (simp add: getWordCount_def std_sort_def)
  have "distinct (map fst ?m)"
    using sorted_wordStats by (rule sorted_wrt_string_less_distinct)
  moreover have "mset (map fst ranked) = mset (map fst ?m)"
    using perm by simp
  ultimately have "distinct (map fst ranked)"
    by (metis mset_eq_imp_distinct_iff)
  then show ?thesis
    using srt perm by simp
qed

theorem C1_ranked_by_count_witness:
  "getWordCount ''fooBar foo''
     [(''foo'', \<lparr>totalNumberOfLines = 1, nbOccurrences = 2, lowestOccurringLine = 0,
                 highestOccurringLine = 0\<rparr>),
      (''Bar'', \<lparr>totalNumberOfLines = 1, nbOccurrences = 1, lowestOccurringLine = 0,
                 highestOccurringLine = 0\<rparr>)]
   \<and> sorted_wrt (\<lambda>p q. nbOccurrences (snd p) \<ge> nbOccurrences (snd q))
     [(''foo'', \<lparr>totalNumberOfLines = 1, nbOccurrences = 2, lowestOccurringLine = 0,
                 highestOccurringLine = 0\<rparr>),
      (''Bar'', \<lparr>totalNumberOfLines = 1, nbOccurrences = 1, lowestOccurringLine = 0,
                 highestOccurringLine = 0\<rparr>)]
   \<and> distinct (map fst
     [(''foo'', \<lparr>totalNumberOfLines = 1, nbOccurrences = 2, lowestOccurringLine = 0,
                 highestOccurringLine = 0\<rparr>),
      (''Bar'', \<lparr>totalNumberOfLines = 1, nbOccurrences = 1, lowestOccurringLine = 0,
                 highestOccurringLine = 0\<rparr>)])"
proof -
  have h: "getWordCount ''fooBar foo''
     [(''foo'', \<lparr>totalNumberOfLines = 1, nbOccurrences = 2, lowestOccurringLine = 0,
                 highestOccurringLine = 0\<rparr>),
      (''Bar'', \<lparr>totalNumberOfLines = 1, nbOccurrences = 1, lowestOccurringLine = 0,
                 highestOccurringLine = 0\<rparr>)]"
    by (simp add: getWordCount_def std_sort_def tokenizer_defs char_class_defs stats_defs
        compare_defs)
  show ?thesis
    using h C1_ranked_by_count [OF h] by simp
qed

text \<open>
  C1, as stated, fails on the order of ties. The text of the seventeen words \<open>a\<close> to
  \<open>q\<close>, one occurrence each, has the ranking below among the results \<open>std::sort\<close>
  may leave (the comparator finds all seventeen entries equivalent). In it \<open>q\<close>, at
  index 1, is followed by \<open>p\<close>, at index 2: equal counts, and the second word is the
  lesser. This ranking is not an artificial one: an introsort that moves the middle
  element of a range of more than sixteen to the front as the pivot and then swaps
  inwards from both ends, as the one of the GNU C++ library does, leaves the seventeen
  entries in this very order.
\<close>

theorem C1_tie_order_counterexample:
  "getWordCount ''a b c d e f g h i j k l m n o p q''
     (map (\<lambda>w. (w, \<lparr>totalNumberOfLines = 1, nbOccurrences = 1, lowestOccurringLine = 0,
                       highestOccurringLine = 0\<rparr>))
        [''i'', ''q'', ''p'', ''o'', ''n'', ''m'', ''l'', ''k'', ''j'', ''a'', ''h'', ''g'', ''f'',
         ''e'', ''d'', ''c'', ''b''])
   \<and> nbOccurrences (snd (map (\<lambda>w. (w, \<lparr>totalNumberOfLines = 1, nbOccurrences = 1,
                       lowestOccurringLine = 0, highestOccurringLine = 0\<rparr>))
        [''i'', ''q'', ''p'', ''o'', ''n'', ''m'', ''l'', ''k'', ''j'', ''a'', ''h'', ''g'', ''f'',
         ''e'', ''d'', ''c'', ''b''] ! 1))
     = nbOccurrences (snd (map (\<lambda>w. (w, \<lparr>totalNumberOfLines = 1, nbOccurrences = 1,
                       lowestOccurringLine = 0, highestOccurringLine = 0\<rparr>))
        [''i'', ''q'', ''p'', ''o'', ''n'', ''m'', ''l'', ''k'', ''j'', ''a'', ''h'', ''g'', ''f'',
         ''e'', ''d'', ''c'', ''b''] ! 2))
   \<and> string_less
       (fst (map (\<lambda>w. (w, \<lparr>totalNumberOfLines = 1, nbOccurrences = 1,
                       lowestOccurringLine = 0, highestOccurringLine = 0\<rparr>))
        [''i'', ''q'', ''p'', ''o'', ''n'', ''m'', ''l'', ''k'', ''j'', ''a'', ''h'', ''g'', ''f'',
         ''e'', ''d'', ''c'', ''b''] ! 2))
       (fst (map (\<lambda>w. (w, \<lparr>totalNumberOfLines = 1, nbOccurrences = 1,
                       lowestOccurringLine = 0, highestOccurringLine = 0\<rparr>))
        [''i'', ''q'', ''p'', ''o'', ''n'', ''m'', ''l'', ''k'', ''j'', ''a'', ''h'', ''g'', ''f'',
         ''e'', ''d'', ''c'', ''b''] ! 1))"
  by (simp add: getWordCount_def std_sort_def tokenizer_defs char_class_defs stats_defs
      compare_defs)

text \<open>
  C2, as amended. For every non-empty text in which no character is a delimiter: in
  \<open>EntireWords\<close> mode the tokenizer produces exactly one occurrence, the whole text at
  line 0; in \<open>WordsInCamelCase\<close> mode it produces exactly one occurrence if and only if
  no character after the first is upper-case, and then it is the whole text at line 0;
  in any case it produces at least one occurrence there, and each one at line 0.
\<close>

theorem C2_no_delimiter:
  assumes "code \<noteq> []" and "\<forall>c\<in>set code. \<not> isDelimiter c"
  shows "getWordDataFromCode_mode EntireWords code = [\<lparr>word = code, lineNumber = 0\<rparr>]
       \<and> (length (getWordDataFromCode_mode WordsInCamelCase code) = 1)
           = (\<forall>c\<in>set (tl code). \<not> isupper_c c)
       \<and> ((\<forall>c\<in>set (tl code). \<not> isupper_c c)
            \<longrightarrow> getWordDataFromCode_mode WordsInCamelCase code
                = [\<lparr>word = code, lineNumber = 0\<rparr>])
       \<and> getWordDataFromCode_mode WordsInCamelCase code \<noteq> []
       \<and> (\<forall>w\<in>set (getWordDataFromCode_mode WordsInCamelCase code). lineNumber w = 0)"
proof -
  let ?camel = "\<lambda>c. isDelimiter c \<or> isupper_c c"
  have hd: "\<not> isDelimiter (hd code)"
    using assms by simp
  have tl: "\<forall>c\<in>set (tl code). \<not> isDelimiter c"
    using assms by (simp add: list.set_sel(2))
  have entire: "getWordDataFromCode code isDelimiter = [\<lparr>word = code, lineNumber = 0\<rparr>]"
    using assms(1) hd tl by (rule tokenize_one_word)
  have one: "getWordDataFromCode code ?camel = [\<lparr>word = code, lineNumber = 0\<rparr>]"
    if "\<forall>c\<in>set (tl code). \<not> isupper_c c"
  proof -
    have "\<forall>c\<in>set (tl code). \<not> ?camel c"
      using tl that by simp
    with assms(1) hd show ?thesis
      by (rule tokenize_one_word)
  qed
  have two: "2 \<le> length (getWordDataFromCode code ?camel)"
    if "\<not> (\<forall>c\<in>set (tl code). \<not> isupper_c c)"
  proof -
    have "\<exists>c\<in>set (tl code). ?camel c"
      using that by blast
    with assms show ?thesis
      by (rule tokenize_two_words)
  qed
  have iff: "(length (getWordDataFromCode code ?camel) = 1) = (\<forall>c\<in>set (tl code). \<not> isupper_c c)"
    using one two by fastforce
  have nonempty: "getWordDataFromCode code ?camel \<noteq> []"
    using one two by fastforce
  have "isDelimiter newline"
    by (simp add: char_class_defs)
  then have "newline \<notin> set code"
    using assms(2) by blast
  then have "numberOfLines code = 1"
    by (simp add: numberOfLines_count_list)
  then have lines: "\<forall>w\<in>set (getWordDataFromCode code ?camel). lineNumber w = 0"
    using getWordDataFromCode_lines [of code ?camel] by simp
  show ?thesis
    using entire iff one nonempty lines by simp
qed

theorem C2_no_delimiter_witness:
  "''foo_bar9'' \<noteq> [] \<and> list_all (\<lambda>c. \<not> isDelimiter c) ''foo_bar9''
   \<and> list_all (\<lambda>c. \<not> isupper_c c) (tl ''foo_bar9'')
   \<and> getWordDataFromCode_mode EntireWords ''foo_bar9''
     = [\<lparr>word = ''foo_bar9'', lineNumber = 0\<rparr>]
   \<and> getWordDataFromCode_mode WordsInCamelCase ''foo_bar9''
     = [\<lparr>word = ''foo_bar9'', lineNumber = 0\<rparr>]"
proof -
  have h1: "''foo_bar9'' \<noteq> []"
    by simp
  have h2: "\<forall>c\<in>set ''foo_bar9''. \<not> isDelimiter c"
    by (simp add: char_class_defs)
  have h3: "\<forall>c\<in>set (tl ''foo_bar9''). \<not> isupper_c c"
    by (simp add: char_class_defs)
  show ?thesis
    using h1 h2 h3 C2_no_delimiter [OF h1 h2] by simp
qed

text \<open>
  C2, as stated, fails in \<open>WordsInCamelCase\<close> mode: \<open>fooBar\<close> is not empty and has no
  delimiter, and the tokenizer produces two occurrences for it, \<open>foo\<close> and \<open>Bar\<close>.
\<close>

theorem C2_camel_case_counterexample:
  "''fooBar'' \<noteq> [] \<and> list_all (\<lambda>c. \<not> isDelimiter c) ''fooBar''
   \<and> getWordDataFromCode_mode WordsInCamelCase ''fooBar''
     = [\<lparr>word = ''foo'', lineNumber = 0\<rparr>, \<lparr>word = ''Bar'', lineNumber = 0\<rparr>]
   \<and> length (getWordDataFromCode_mode WordsInCamelCase ''fooBar'') \<noteq> 1"
  by (simp add: tokenizer_defs char_class_defs)

text \<open>
  C3. For the text \<open>cat\ndog\ncat\n\<close> (\<open>\n\<close> the newline character), which has
  4 lines, the map built from the \<open>WordsInCamelCase\<close> tokenization holds \<open>cat\<close> with 2
  occurrences, lowest line 0 and highest line 2, hence span 3 and proportion 0.75, and
  \<open>dog\<close> with 1 occurrence, span 1 and proportion 0.25; and \<open>[cat, dog]\<close> is the one
  ranking \<open>getWordCount\<close> may return.
\<close>

theorem C3_cat_dog:
  "numberOfLines ''cat\<newline>dog\<newline>cat\<newline>'' = 4
   \<and> wordStats (getWordDataFromCode_mode WordsInCamelCase ''cat\<newline>dog\<newline>cat\<newline>'')
        (numberOfLines ''cat\<newline>dog\<newline>cat\<newline>'')
     = [(''cat'', \<lparr>totalNumberOfLines = 4, nbOccurrences = 2, lowestOccurringLine = 0,
                   highestOccurringLine = 2\<rparr>),
        (''dog'', \<lparr>totalNumberOfLines = 4, nbOccurrences = 1, lowestOccurringLine = 1,
                   highestOccurringLine = 1\<rparr>)]
   \<and> span \<lparr>totalNumberOfLines = 4, nbOccurrences = 2, lowestOccurringLine = 0,
            highestOccurringLine = 2\<rparr> = 3
   \<and> proportion \<lparr>totalNumberOfLines = 4, nbOccurrences = 2, lowestOccurringLine = 0,
                  highestOccurringLine = 2\<rparr> = 0.75
   \<and> span \<lparr>totalNumberOfLines = 4, nbOccurrences = 1, lowestOccurringLine = 1,
            highestOccurringLine = 1\<rparr> = 1
   \<and> proportion \<lparr>totalNumberOfLines = 4, nbOccurrences = 1, lowestOccurringLine = 1,
                  highestOccurringLine = 1\<rparr> = 0.25
   \<and> getWordCount ''cat\<newline>dog\<newline>cat\<newline>'' ranked
     = (ranked =
          [(''cat'', \<lparr>totalNumberOfLines = 4, nbOccurrences = 2, lowestOccurringLine = 0,
                     highestOccurringLine = 2\<rparr>),
           (''dog'', \<lparr>totalNumberOfLines = 4, nbOccurrences = 1, lowestOccurringLine = 1,
                     highestOccurringLine = 1\<rparr>)])"
proof -
  have n: "numberOfLines ''cat\<newline>dog\<newline>cat\<newline>'' = 4"
    by (simp add: numberOfLines_count_list newline_def)
  have m: "wordStats (getWordDataFromCode_mode WordsInCamelCase ''cat\<newline>dog\<newline>cat\<newline>'') 4
     = [(''cat'', \<lparr>totalNumberOfLines = 4, nbOccurrences = 2, lowestOccurringLine = 0,
                   highestOccurringLine = 2\<rparr>),
        (''dog'', \<lparr>totalNumberOfLines = 4, nbOccurrences = 1, lowestOccurringLine = 1,
                   highestOccurringLine = 1\<rparr>)]"
    by (simp add: tokenizer_defs char_class_defs stats_defs)
  have r: "getWordCount ''cat\<newline>dog\<newline>cat\<newline>'' ranked
     = (ranked =
          [(''cat'', \<lparr>totalNumberOfLines = 4, nbOccurrences = 2, lowestOccurringLine = 0,
                     highestOccurringLine = 2\<rparr>),
           (''dog'', \<lparr>totalNumberOfLines = 4, nbOccurrences = 1, lowestOccurringLine = 1,
                     highestOccurringLine = 1\<rparr>)])"
    unfolding getWordCount_def n m by (rule std_sort_two) (simp_all add: compare_defs)
  have s: "span \<lparr>totalNumberOfLines = 4, nbOccurrences = 2, lowestOccurringLine = 0,
            highestOccurringLine = 2\<rparr> = 3
   \<and> proportion \<lparr>totalNumberOfLines = 4, nbOccurrences = 2, lowestOccurringLine = 0,
                  highestOccurringLine = 2\<rparr> = 0.75
   \<and> span \<lparr>totalNumberOfLines = 4, nbOccurrences = 1, lowestOccurringLine = 1,
            highestOccurringLine = 1\<rparr> = 1
   \<and> proportion \<lparr>totalNumberOfLines = 4, nbOccurrences = 1, lowestOccurringLine = 1,
                  highestOccurringLine = 1\<rparr> = 0.25"
    by (simp add: span_def size_t_minus_def proportion_def)
  show ?thesis
    using n m r s by simp
qed

text \<open>
  C4. Tokenizing \<open>"fooBar baz_qux"\<close> in \<open>WordsInCamelCase\<close> mode yields exactly the
  occurrences \<open>("foo",0), ("Bar",0), ("baz_qux",0)\<close>, and in \<open>EntireWords\<close> mode exactly
  \<open>("fooBar",0), ("baz_qux",0)\<close>.
\<close>

theorem C4_tokenize_fooBar:
  "getWordDataFromCode_mode WordsInCamelCase ''fooBar baz_qux'' =
     [\<lparr>word = ''foo'', lineNumber = 0\<rparr>, \<lparr>word = ''Bar'', lineNumber = 0\<rparr>,
      \<lparr>word = ''baz_qux'', lineNumber = 0\<rparr>]
   \<and> getWordDataFromCode_mode EntireWords ''fooBar baz_qux'' =
     [\<lparr>word = ''fooBar'', lineNumber = 0\<rparr>, \<lparr>word = ''baz_qux'', lineNumber = 0\<rparr>]"
  by (simp add: tokenizer_defs char_class_defs)

text \<open>
  C5. For every text and every ranking \<open>getWordCount\<close> may return for it, the sum of
  \<open>nbOccurrences\<close> over the entries of the ranking is the number of occurrences the
  tokenizer produces for the text in \<open>WordsInCamelCase\<close> mode.
\<close>

theorem C5_counts_sum_to_tokens:
  "getWordCount code ranked
   \<Longrightarrow> sum_list (map (\<lambda>entry. nbOccurrences (snd entry)) ranked)
       = length (getWordDataFromCode_mode WordsInCamelCase code)"
proof -
  assume "getWordCount code ranked"
  then have "is_permutation
      (wordStats (getWordDataFromCode_mode WordsInCamelCase code) (numberOfLines code)) ranked"
    by (simp add: getWordCount_def std_sort_def)
  then show ?thesis
    by (simp only: is_permutation_sum_list sum_wordStats)
qed

theorem C5_counts_sum_to_tokens_witness:
  "getWordCount ''fooBar foo''
     [(''foo'', \<lparr>totalNumberOfLines = 1, nbOccurrences = 2, lowestOccurringLine = 0,
                 highestOccurringLine = 0\<rparr>),
      (''Bar'', \<lparr>totalNumberOfLines = 1, nbOccurrences = 1, lowestOccurringLine = 0,
                 highestOccurringLine = 0\<rparr>)]
   \<and> sum_list (map (\<lambda>entry. nbOccurrences (snd entry))
        [(''foo'', \<lparr>totalNumberOfLines = 1, nbOccurrences = 2, lowestOccurringLine = 0,
                    highestOccurringLine = 0\<rparr>),
         (''Bar'', \<lparr>totalNumberOfLines = 1, nbOccurrences = 1, lowestOccurringLine = 0,
                    highestOccurringLine = 0\<rparr>)])
       = length (getWordDataFromCode_mode WordsInCamelCase ''fooBar foo'')
   \<and> length (getWordDataFromCode_mode WordsInCamelCase ''fooBar foo'') = 3"
proof -
  have h: "getWordCount ''fooBar foo''
     [(''foo'', \<lparr>totalNumberOfLines = 1, nbOccurrences = 2, lowestOccurringLine = 0,
                 highestOccurringLine = 0\<rparr>),
      (''Bar'', \<lparr>totalNumberOfLines = 1, nbOccurrences = 1, lowestOccurringLine = 0,
                 highestOccurringLine = 0\<rparr>)]"
    by (simp add: getWordCount_def std_sort_def tokenizer_defs char_class_defs stats_defs
        compare_defs)
  have n: "length (getWordDataFromCode_mode WordsInCamelCase ''fooBar foo'') = 3"
    by (simp add: tokenizer_defs char_class_defs)
  show ?thesis
    using h n C5_counts_sum_to_tokens [OF h] by simp
qed

text \<open>
  C6. For every text and every entry of a ranking \<open>getWordCount\<close> may return for it,
  the span is at least 1 and at most the entry's \<open>totalNumberOfLines\<close>, which is
  \<open>numberOfLines\<close> of the text, and the span is 1 when the entry has one occurrence;
  every entry has an occurrence and its lowest line is at most its highest. And for a
  \<open>WordStats\<close> after any sequence of calls of its two mutating members: the lowest
  line is at most the highest when it has an occurrence, and both are zero when it has
  none.
\<close>

theorem C6_span_bounds:
  assumes "getWordCount code ranked"
  shows "(\<forall>entry\<in>set ranked.
            1 \<le> span (snd entry)
          \<and> span (snd entry) \<le> totalNumberOfLines (snd entry)
          \<and> totalNumberOfLines (snd entry) = numberOfLines code
          \<and> (nbOccurrences (snd entry) = 1 \<longrightarrow> span (snd entry) = 1)
          \<and> 0 < nbOccurrences (snd entry)
          \<and> lowestOccurringLine (snd entry) \<le> highestOccurringLine (snd entry))
       \<and> (0 < nbOccurrences (WordStats_after calls)
            \<longrightarrow> lowestOccurringLine (WordStats_after calls)
                \<le> highestOccurringLine (WordStats_after calls))
       \<and> (nbOccurrences (WordStats_after calls) = 0
            \<longrightarrow> lowestOccurringLine (WordStats_after calls) = 0
                \<and> highestOccurringLine (WordStats_after calls) = 0)"
proof -
  let ?words = "getWordDataFromCode_mode WordsInCamelCase code"
  let ?n = "numberOfLines code"
  have perm: "is_permutation (wordStats ?words ?n) ranked"
    using assms by (simp add: getWordCount_def std_sort_def)
  have "\<forall>d\<in>set ?words. lineNumber d < ?n"
    using getWordDataFromCode_lines [of code "\<lambda>c. isDelimiter c \<or> isupper_c c"] by simp
  then have "\<forall>e\<in>set (wordStats ?words ?n). stats_ok ?n ?n (snd e)"
    by (rule stats_ok_wordStats)
  then have ok: "\<forall>e\<in>set ranked. stats_ok ?n ?n (snd e)"
    using is_permutation_set [OF perm] by simp
  have "\<forall>entry\<in>set ranked.
            1 \<le> span (snd entry)
          \<and> span (snd entry) \<le> totalNumberOfLines (snd entry)
          \<and> totalNumberOfLines (snd entry) = numberOfLines code
          \<and> (nbOccurrences (snd entry) = 1 \<longrightarrow> span (snd entry) = 1)
          \<and> 0 < nbOccurrences (snd entry)
          \<and> lowestOccurringLine (snd entry) \<le> highestOccurringLine (snd entry)"
  proof
    fix entry
    assume "entry \<in> set ranked"
    then have s: "stats_ok ?n ?n (snd entry)"
      using ok by simp
    then show "1 \<le> span (snd entry)
          \<and> span (snd entry) \<le> totalNumberOfLines (snd entry)
          \<and> totalNumberOfLines (snd entry) = numberOfLines code
          \<and> (nbOccurrences (snd entry) = 1 \<longrightarrow> span (snd entry) = 1)
          \<and> 0 < nbOccurrences (snd entry)
          \<and> lowestOccurringLine (snd entry) \<le> highestOccurringLine (snd entry)"
      using stats_ok_span [OF s] by (simp add: stats_ok_def)
  qed
  then show ?thesis
    using WordStats_after_invariant [of calls] by (rule conjI)
qed

theorem C6_span_bounds_witness:
  "getWordCount ''cat\<newline>dog\<newline>cat\<newline>''
     [(''cat'', \<lparr>totalNumberOfLines = 4, nbOccurrences = 2, lowestOccurringLine = 0,
                 highestOccurringLine = 2\<rparr>),
      (''dog'', \<lparr>totalNumberOfLines = 4, nbOccurrences = 1, lowestOccurringLine = 1,
                 highestOccurringLine = 1\<rparr>)]
   \<and> numberOfLines ''cat\<newline>dog\<newline>cat\<newline>'' = 4
   \<and> span \<lparr>totalNumberOfLines = 4, nbOccurrences = 2, lowestOccurringLine = 0,
            highestOccurringLine = 2\<rparr> = 3
   \<and> span \<lparr>totalNumberOfLines = 4, nbOccurrences = 1, lowestOccurringLine = 1,
            highestOccurringLine = 1\<rparr> = 1
   \<and> WordStats_after [SetTotalNumberOfLines 4, AddOneOccurrence 2, SetTotalNumberOfLines 4,
        AddOneOccurrence 0]
     = \<lparr>totalNumberOfLines = 4, nbOccurrences = 2, lowestOccurringLine = 0,
        highestOccurringLine = 2\<rparr>
   \<and> list_all
        (\<lambda>entry. 1 \<le> span (snd entry)
           \<and> span (snd entry) \<le> totalNumberOfLines (snd entry)
           \<and> totalNumberOfLines (snd entry) = numberOfLines ''cat\<newline>dog\<newline>cat\<newline>'')
        [(''cat'', \<lparr>totalNumberOfLines = 4, nbOccurrences = 2, lowestOccurringLine = 0,
                    highestOccurringLine = 2\<rparr>),
         (''dog'', \<lparr>totalNumberOfLines = 4, nbOccurrences = 1, lowestOccurringLine = 1,
                    highestOccurringLine = 1\<rparr>)]"
proof -
  have h: "getWordCount ''cat\<newline>dog\<newline>cat\<newline>''
     [(''cat'', \<lparr>totalNumberOfLines = 4, nbOccurrences = 2, lowestOccurringLine = 0,
                 highestOccurringLine = 2\<rparr>),
      (''dog'', \<lparr>totalNumberOfLines = 4, nbOccurrences = 1, lowestOccurringLine = 1,
                 highestOccurringLine = 1\<rparr>)]"
    by (simp add: getWordCount_def std_sort_def tokenizer_defs char_class_defs stats_defs
        compare_defs)
  have n: "numberOfLines ''cat\<newline>dog\<newline>cat\<newline>'' = 4"
    by (simp add: numberOfLines_count_list newline_def)
  have a: "WordStats_after [SetTotalNumberOfLines 4, AddOneOccurrence 2, SetTotalNumberOfLines 4,
        AddOneOccurrence 0]
     = \<lparr>totalNumberOfLines = 4, nbOccurrences = 2, lowestOccurringLine = 0,
        highestOccurringLine = 2\<rparr>"
    by (simp add: WordStats_after_def stats_defs)
  show ?thesis
    using h n a
      C6_span_bounds [OF h, of "[SetTotalNumberOfLines 4, AddOneOccurrence 2,
        SetTotalNumberOfLines 4, AddOneOccurrence 0]"]
    by (simp add: span_def size_t_minus_def)
qed

text \<open>
  C7. For every text, \<open>numberOfLines\<close> is the number of newline characters of the text
  plus one; it is 1 on the empty text, 2 on \<open>a\nb\<close> and 3 on \<open>a\nb\n\<close> (\<open>\n\<close> the
  newline character).
\<close>

theorem C7_numberOfLines:
  "numberOfLines code = count_list code newline + 1
   \<and> numberOfLines [] = 1
   \<and> numberOfLines ''a\<newline>b'' = 2
   \<and> numberOfLines ''a\<newline>b\<newline>'' = 3"
  by (simp add: numberOfLines_count_list newline_def)

text \<open>
  C8. The empty text is a valid input: in both modes the tokenizer returns no occurrence
  for it, \<open>wordStats\<close> of no occurrence is the empty map, and the empty sequence is a
  return value of \<open>getWordCount\<close>, and the only one. (Every function of the model is
  total, so none of them fails.)
\<close>

theorem C8_empty_input:
  "getWordDataFromCode_mode EntireWords [] = []
   \<and> getWordDataFromCode_mode WordsInCamelCase [] = []
   \<and> wordStats [] n = []
   \<and> getWordCount [] []
   \<and> getWordCount [] ranked = (ranked = [])"
  by (auto simp add: tokenizer_defs wordStats_def getWordCount_def std_sort_def)

text \<open>
  C9. On \<open>WordStats\<close> the operators derived by \<open>Comparable\<close> from \<open>operator<\<close> are
  those of the preorder of the occurrence counts: \<open>a > b\<close> is \<open>b < a\<close>, \<open>a == b\<close> is
  "neither \<open>a < b\<close> nor \<open>b < a\<close>", and each operator is the comparison of the two
  \<open>nbOccurrences\<close>. So two statistics with the same count are \<open>==\<close> whatever their
  other members, as the two of the last conjunct, which differ in all of them.
\<close>

theorem C9_comparable_by_count:
  "Comparable_gt WordStats_less a b = WordStats_less b a
   \<and> Comparable_eq WordStats_less a b = (\<not> WordStats_less a b \<and> \<not> WordStats_less b a)
   \<and> WordStats_less a b = (nbOccurrences a < nbOccurrences b)
   \<and> Comparable_gt WordStats_less a b = (nbOccurrences a > nbOccurrences b)
   \<and> Comparable_ge WordStats_less a b = (nbOccurrences a \<ge> nbOccurrences b)
   \<and> Comparable_le WordStats_less a b = (nbOccurrences a \<le> nbOccurrences b)
   \<and> Comparable_eq WordStats_less a b = (nbOccurrences a = nbOccurrences b)
   \<and> Comparable_ne WordStats_less a b = (nbOccurrences a \<noteq> nbOccurrences b)
   \<and> Comparable_eq WordStats_less
        \<lparr>totalNumberOfLines = 4, nbOccurrences = 2, lowestOccurringLine = 0,
           highestOccurringLine = 2\<rparr>
        \<lparr>totalNumberOfLines = 9, nbOccurrences = 2, lowestOccurringLine = 5,
           highestOccurringLine = 5\<rparr>"
  by (auto simp add: compare_defs)

text \<open>
  C10. For every text and both modes, the line numbers of the occurrences the tokenizer
  produces are non-decreasing in sequence order, and each of them is strictly less than
  \<open>numberOfLines\<close> of the text.
\<close>

theorem C10_lines_ascend_below_numberOfLines:
  "sorted (map lineNumber (getWordDataFromCode_mode mode code))
   \<and> (\<forall>w\<in>set (getWordDataFromCode_mode mode code). lineNumber w < numberOfLines code)"
proof (cases mode)
  case EntireWords
  then show ?thesis
    using getWordDataFromCode_lines [of code isDelimiter] by simp
next
  case WordsInCamelCase
  then show ?thesis
    using getWordDataFromCode_lines [of code "\<lambda>c. isDelimiter c \<or> isupper_c c"] by simp
qed

theorem C10_lines_ascend_below_numberOfLines_witness:
  "getWordDataFromCode_mode WordsInCamelCase ''a\<newline>\<newline>bC''
     = [\<lparr>word = ''a'', lineNumber = 0\<rparr>, \<lparr>word = ''b'', lineNumber = 2\<rparr>,
        \<lparr>word = ''C'', lineNumber = 2\<rparr>]
   \<and> numberOfLines ''a\<newline>\<newline>bC'' = 3
   \<and> sorted (map lineNumber
        (getWordDataFromCode_mode WordsInCamelCase ''a\<newline>\<newline>bC''))
   \<and> list_all (\<lambda>w. lineNumber w < numberOfLines ''a\<newline>\<newline>bC'')
        (getWordDataFromCode_mode WordsInCamelCase ''a\<newline>\<newline>bC'')"
proof -
  have t: "getWordDataFromCode_mode WordsInCamelCase ''a\<newline>\<newline>bC''
     = [\<lparr>word = ''a'', lineNumber = 0\<rparr>, \<lparr>word = ''b'', lineNumber = 2\<rparr>,
        \<lparr>word = ''C'', lineNumber = 2\<rparr>]"
    by (simp add: tokenizer_defs char_class_defs)
  have n: "numberOfLines ''a\<newline>\<newline>bC'' = 3"
    by (simp add: numberOfLines_count_list newline_def)
  show ?thesis
    using t n C10_lines_ascend_below_numberOfLines
      [of WordsInCamelCase "''a\<newline>\<newline>bC''"]
    by simp
qed

end
